theory Spec2Isabelle
  imports Main
begin

unbundle bit_operations_syntax

section \<open>SnapMatch: fingerprints, distance and matching\<close>

text \<open>
  The development follows the package \<^verbatim>\<open>snapmatch\<close>: \<^verbatim>\<open>hashing.py\<close> (the 64-bit
  difference hash and the Hamming distance), \<^verbatim>\<open>matching.py\<close> (the nearest-reference
  search), \<^verbatim>\<open>io_utils.py\<close> (the CSV cache) and \<^verbatim>\<open>cli.py\<close> (the two hashing phases).
  Python integers are unbounded, so they are \<^typ>\<open>int\<close>; a \<^verbatim>\<open>pathlib.Path\<close> is the list of
  its components below the root.
\<close>

subsection \<open>hashing.py: ImageHash and hamming\_distance\<close>

type_synonym path = "string list"

record ImageHash =
  path :: path
  dhash :: int

text \<open>
  \<^verbatim>\<open>int.bit_count()\<close> counts the ones in the binary representation of the absolute value
  of the integer; the fallback \<^verbatim>\<open>bin(x).count("1")\<close> counts the same digits.
\<close>

fun popcount :: "nat \<Rightarrow> nat" where
  "popcount n = (if n = 0 then 0 else n mod 2 + popcount (n div 2))"

declare popcount.simps [simp del]

definition bit_count :: "int \<Rightarrow> int" where
  "bit_count x = int (popcount (nat \<bar>x\<bar>))"

definition hamming_distance :: "int \<Rightarrow> int \<Rightarrow> int" where
  "hamming_distance a b = (let x = a XOR b in bit_count x)"

text \<open>A fingerprint is an integer that fits 64 bits (the comment on \<^verbatim>\<open>ImageHash.dhash\<close>).\<close>

definition is_fingerprint :: "int \<Rightarrow> bool" where
  "is_fingerprint a \<longleftrightarrow> 0 \<le> a \<and> a < 2 ^ 64"

subsection \<open>matching.py: MatchResult and find\_best\_match\<close>

record MatchResult =
  edited_path :: path
  edited_hash :: int
  matched_raw_path :: "path option"
  matched_raw_hash :: "int option"
  distance :: "int option"
  status :: string

datatype py_error = IndexError | OSError

text \<open>
  The scanning loop of \<^verbatim>\<open>find_best_match\<close>, with its state \<^verbatim>\<open>(best_idx, best_dist)\<close> and
  the index \<^verbatim>\<open>i\<close> of \<^verbatim>\<open>enumerate\<close>. The \<^verbatim>\<open>break\<close> at distance 0 returns without looking
  at the rest of the sequence.
\<close>

fun scan :: "int \<Rightarrow> ImageHash list \<Rightarrow> nat \<Rightarrow> nat option \<times> int \<Rightarrow> nat option \<times> int" where
  "scan ehash [] i (best_idx, best_dist) = (best_idx, best_dist)"
| "scan ehash (rh # rest) i (best_idx, best_dist) =
     (let d = hamming_distance ehash (dhash rh) in
      if d < best_dist then
        (if d = 0 then (Some i, d) else scan ehash rest (Suc i) (Some i, d))
      else scan ehash rest (Suc i) (best_idx, best_dist))"

text \<open>\<^verbatim>\<open>raw_hashes[best_idx]\<close>: Python raises IndexError out of range.\<close>

definition getitem :: "'a list \<Rightarrow> nat \<Rightarrow> py_error + 'a" where
  "getitem xs i = (if i < length xs then Inr (xs ! i) else Inl IndexError)"

definition find_best_match :: "ImageHash \<Rightarrow> ImageHash list \<Rightarrow> int \<Rightarrow> py_error + MatchResult" where
  "find_best_match edited raw_hashes max_distance =
     (case scan (dhash edited) raw_hashes 0 (None, 10 ^ 9) of
        (None, best_dist) \<Rightarrow>
          Inr \<lparr>edited_path = path edited, edited_hash = dhash edited,
               matched_raw_path = None, matched_raw_hash = None,
               distance = None, status = ''no_match''\<rparr>
      | (Some best_idx, best_dist) \<Rightarrow>
          (case getitem raw_hashes best_idx of
             Inl e \<Rightarrow> Inl e
           | Inr best \<Rightarrow>
               if best_dist \<le> max_distance then
                 Inr \<lparr>edited_path = path edited, edited_hash = dhash edited,
                      matched_raw_path = Some (path best), matched_raw_hash = Some (dhash best),
                      distance = Some best_dist, status = ''matched''\<rparr>
               else
                 Inr \<lparr>edited_path = path edited, edited_hash = dhash edited,
                      matched_raw_path = Some (path best), matched_raw_hash = Some (dhash best),
                      distance = Some best_dist, status = ''no_match''\<rparr>))"

text \<open>The distance from a query fingerprint to one reference entry.\<close>

abbreviation dist_to :: "ImageHash \<Rightarrow> ImageHash \<Rightarrow> int" where
  "dist_to q r \<equiv> hamming_distance (dhash q) (dhash r)"

subsection \<open>The outside world: image files and the file system\<close>

text \<open>
  What the program reads from outside is a parameter of the model. \<open>resolve\<close> is
  \<^verbatim>\<open>Path.expanduser().resolve()\<close>; \<open>stat\<close> is \<^verbatim>\<open>Path.stat()\<close>, \<open>None\<close> when it raises OSError;
  \<open>load_pixels\<close> is the Pillow pipeline
  \<^verbatim>\<open>Image.open(path).convert("L").resize((9, 8), BILINEAR).getdata()\<close> as a list, \<open>None\<close> when
  it raises; \<open>iter_images\<close> is the recursive enumeration of the image files under a folder;
  \<open>pool_map\<close> is \<^verbatim>\<open>ProcessPoolExecutor(max_workers).map\<close>.
\<close>

record stat_result =
  st_mtime_ns :: int
  st_size :: int

record env =
  resolve :: "path \<Rightarrow> path"
  stat :: "path \<Rightarrow> stat_result option"
  load_pixels :: "path \<Rightarrow> int list option"
  iter_images :: "path \<Rightarrow> path list"
  pool_map :: "int option \<Rightarrow> (path \<Rightarrow> ImageHash option) \<Rightarrow> path list \<Rightarrow> ImageHash option list"




subsection \<open>hashing.py: dhash64\<close>

text \<open>\<^verbatim>\<open>px[i]\<close> raises IndexError out of range; \<^verbatim>\<open>dhash64\<close> turns every exception into None.\<close>

definition px_at :: "int list \<Rightarrow> nat \<Rightarrow> int option" where
  "px_at px i = (if i < length px then Some (px ! i) else None)"

text \<open>The inner loop over \<^verbatim>\<open>col\<close>, on the state \<^verbatim>\<open>(h, bit)\<close>.\<close>

fun dhash_cols :: "int list \<Rightarrow> nat \<Rightarrow> nat list \<Rightarrow> int \<times> int \<Rightarrow> (int \<times> int) option" where
  "dhash_cols px base [] (h, b) = Some (h, b)"
| "dhash_cols px base (col # cols) (h, b) =
     (case px_at px (base + col) of
        None \<Rightarrow> None
      | Some left \<Rightarrow>
          (case px_at px (base + col + 1) of
             None \<Rightarrow> None
           | Some right \<Rightarrow>
               dhash_cols px base cols ((if right > left then h OR b else h), drop_bit 1 b)))"

text \<open>The outer loop over \<^verbatim>\<open>row\<close>.\<close>

fun dhash_rows :: "int list \<Rightarrow> nat list \<Rightarrow> int \<times> int \<Rightarrow> (int \<times> int) option" where
  "dhash_rows px [] (h, b) = Some (h, b)"
| "dhash_rows px (row # rows) (h, b) =
     (let base = row * 9 in
      case dhash_cols px base [0..<8] (h, b) of
        None \<Rightarrow> None
      | Some hb \<Rightarrow> dhash_rows px rows hb)"

text \<open>The body of \<^verbatim>\<open>dhash64\<close> after the pixels are read: \<^verbatim>\<open>h = 0; bit = 1 << 63\<close>, the loops.\<close>

definition dhash_bits :: "int list \<Rightarrow> int option" where
  "dhash_bits px = map_option fst (dhash_rows px [0..<8] (0, push_bit 63 1))"

definition dhash64 :: "env \<Rightarrow> path \<Rightarrow> int option" where
  "dhash64 e p = (case load_pixels e p of None \<Rightarrow> None | Some px \<Rightarrow> dhash_bits px)"

subsection \<open>io\_utils.py: the cache\<close>



























subsection \<open>cli.py: the two hashing phases\<close>

definition hash_path_worker :: "env \<Rightarrow> path \<Rightarrow> ImageHash option" where
  "hash_path_worker e p =
     (case dhash64 e p of None \<Rightarrow> None | Some h \<Rightarrow> Some \<lparr>path = p, dhash = h\<rparr>)"


text \<open>The in-process loop: \<^verbatim>\<open>for p in todo: r = _hash_path_worker(p); ...\<close>\<close>

fun hash_todo :: "env \<Rightarrow> path list \<Rightarrow> ImageHash list \<Rightarrow> ImageHash list" where
  "hash_todo e [] out = out"
| "hash_todo e (p # ps) out =
     (case hash_path_worker e p of
        None \<Rightarrow> hash_todo e ps out
      | Some r \<Rightarrow> hash_todo e ps (out @ [r]))"

text \<open>The loop over the results of the pool: \<^verbatim>\<open>for r in ex.map(...): if r is not None: ...\<close>\<close>

fun collect :: "ImageHash option list \<Rightarrow> ImageHash list \<Rightarrow> ImageHash list" where
  "collect [] out = out"
| "collect (r # rs) out =
     (case r of None \<Rightarrow> collect rs out | Some x \<Rightarrow> collect rs (out @ [x]))"



text \<open>\<^verbatim>\<open>_hash_edited_images\<close>: no cache; a file without a hash is passed over.\<close>

fun hash_edited_loop :: "env \<Rightarrow> path list \<Rightarrow> ImageHash list \<Rightarrow> ImageHash list" where
  "hash_edited_loop e [] out = out"
| "hash_edited_loop e (p # ps) out =
     (case dhash64 e p of
        None \<Rightarrow> hash_edited_loop e ps out
      | Some h \<Rightarrow> hash_edited_loop e ps (out @ [\<lparr>path = resolve e p, dhash = h\<rparr>]))"

definition hash_edited_images :: "env \<Rightarrow> path \<Rightarrow> ImageHash list" where
  "hash_edited_images e edited_dir =
     (let edited_dir' = resolve e edited_dir;
          paths = iter_images e edited_dir'
      in hash_edited_loop e paths [])"

subsection \<open>Conditions on the outside world\<close>






subsection \<open>A small world for examples\<close>

text \<open>
  Three files under \<^verbatim>\<open>/raw\<close>: \<^verbatim>\<open>a.jpg\<close> decodes to a grid of equal pixels (fingerprint 0),
  \<^verbatim>\<open>b.jpg\<close> exists but does not decode, \<^verbatim>\<open>c.jpg\<close> decodes to a grid whose last pixel alone
  is greater than its left neighbour (fingerprint 1). The enumeration is a parameter. The pool returns its results in order.
\<close>

definition example_env :: "path list \<Rightarrow> env" where
  "example_env ps =
     \<lparr>resolve = (\<lambda>p. p),
      stat = (\<lambda>p. if p = [''raw'', ''a.jpg''] then Some \<lparr>st_mtime_ns = 10, st_size = 20\<rparr>
                  else if p = [''raw'', ''b.jpg''] then Some \<lparr>st_mtime_ns = 11, st_size = 21\<rparr>
                  else if p = [''raw'', ''c.jpg''] then Some \<lparr>st_mtime_ns = 12, st_size = 22\<rparr>
                  else None),
      load_pixels = (\<lambda>p. if p = [''raw'', ''a.jpg''] then Some (replicate 72 0)
                         else if p = [''raw'', ''c.jpg''] then Some (replicate 70 1 @ [0, 1])
                         else None),
      iter_images = (\<lambda>d. ps),
      pool_map = (\<lambda>mw f xs. map f xs)\<rparr>"



subsection \<open>The loop invariant of dhash64\<close>

text \<open>
  The \<open>j\<close>-th comparison in row-major order, and the state after \<open>k\<close> comparisons: bit
  \<open>63 - j\<close> of \<open>h\<close> holds the \<open>j\<close>-th comparison for \<open>j < k\<close>, and \<open>bit\<close> is at position
  \<open>63 - k\<close>.
\<close>

definition cmp_at :: "int list \<Rightarrow> nat \<Rightarrow> bool" where
  "cmp_at px j \<longleftrightarrow> px ! (9 * (j div 8) + j mod 8) < px ! (9 * (j div 8) + j mod 8 + 1)"

definition dhash_inv :: "int list \<Rightarrow> nat \<Rightarrow> int \<times> int \<Rightarrow> bool" where
  "dhash_inv px k hb \<longleftrightarrow>
     (case hb of (h, b) \<Rightarrow>
        0 \<le> h \<and> (\<forall>n. bit h n \<longleftrightarrow> n < 64 \<and> 63 - n < k \<and> cmp_at px (63 - n))
        \<and> b = (if k < 64 then 2 ^ (63 - k) else 0))"

section \<open>Properties of the Hamming distance\<close>

lemma popcount_bound: "n < 2 ^ k \<Longrightarrow> popcount n \<le> k"
proof (induction k arbitrary: n)
  case 0
  then show ?case by (simp add: popcount.simps)
next
  case (Suc k)
  show ?case
  proof (cases "n = 0")
    case True
    then show ?thesis by (simp add: popcount.simps)
  next
    case False
    from Suc.prems have "n div 2 < 2 ^ k" by simp
    then have "popcount (n div 2) \<le> k" by (rule Suc.IH)
    moreover have "n mod 2 \<le> 1" by simp
    ultimately show ?thesis using False by (subst popcount.simps) simp
  qed
qed

lemma hamming_distance_nonneg: "0 \<le> hamming_distance a b"
  by (simp add: hamming_distance_def bit_count_def)

lemma hamming_distance_le_64:
  assumes "is_fingerprint a" "is_fingerprint b"
  shows "hamming_distance a b \<le> 64"
proof -
  from assms have x: "0 \<le> a XOR b" "a XOR b < 2 ^ 64"
    unfolding is_fingerprint_def using XOR_upper [of a 64 b] by simp_all
  then have "nat \<bar>a XOR b\<bar> < 2 ^ 64"
    by (simp add: nat_less_iff)
  then have "popcount (nat \<bar>a XOR b\<bar>) \<le> 64" by (rule popcount_bound)
  then show ?thesis by (simp add: hamming_distance_def bit_count_def)
qed

text \<open>
  C9: for 64-bit fingerprints the Hamming distance is symmetric, is 0 from a fingerprint to
  itself, and lies between 0 and 64.
\<close>

theorem hamming_distance_metric:
  assumes "is_fingerprint a" "is_fingerprint b"
  shows "hamming_distance a b = hamming_distance b a
       \<and> hamming_distance a a = 0
       \<and> 0 \<le> hamming_distance a b \<and> hamming_distance a b \<le> 64"
proof -
  have "hamming_distance a b = hamming_distance b a"
    by (simp add: hamming_distance_def xor.commute)
  moreover have "hamming_distance a a = 0"
    by (simp add: hamming_distance_def bit_count_def popcount.simps)
  ultimately show ?thesis
    using hamming_distance_nonneg [of a b] hamming_distance_le_64 [OF assms] by simp
qed

theorem hamming_distance_metric_witness:
  "is_fingerprint 5 \<and> is_fingerprint 6
   \<and> hamming_distance 5 6 = hamming_distance 6 5 \<and> hamming_distance 5 5 = 0
   \<and> 0 \<le> hamming_distance 5 6 \<and> hamming_distance 5 6 \<le> 64"
proof -
  have a: "is_fingerprint 5" and b: "is_fingerprint 6" by (simp_all add: is_fingerprint_def)
  show ?thesis using a b hamming_distance_metric [OF a b] by simp
qed


section \<open>Properties of the matcher\<close>


lemma scan_spec:
  "scan e refs i (bi, bd) = (bi', bd') \<Longrightarrow>
   (bi' = bi \<and> bd' = bd \<and> (\<forall>r\<in>set refs. bd \<le> hamming_distance e (dhash r)))
   \<or> (\<exists>j<length refs. bi' = Some (i + j) \<and> bd' = hamming_distance e (dhash (refs ! j)) \<and> bd' < bd
       \<and> (\<forall>k<j. bd' < hamming_distance e (dhash (refs ! k)))
       \<and> (\<forall>r\<in>set refs. bd' \<le> hamming_distance e (dhash r)))"
proof (induction refs arbitrary: i bi bd)
  case Nil
  then show ?case by simp
next
  case (Cons rh rest)
  let ?d = "hamming_distance e (dhash rh)"
  have nn: "\<And>r. 0 \<le> hamming_distance e (dhash r)" by (rule hamming_distance_nonneg)
  consider (zero) "?d < bd" "?d = 0" | (better) "?d < bd" "?d \<noteq> 0" | (worse) "\<not> ?d < bd" by blast
  then show ?case
  proof cases
    case zero
    with Cons.prems have "bi' = Some i" "bd' = 0" by simp_all
    with zero have "0 < length (rh # rest) \<and> bi' = Some (i + 0) \<and> bd' = hamming_distance e (dhash ((rh # rest) ! 0)) \<and> bd' < bd
       \<and> (\<forall>k<0. bd' < hamming_distance e (dhash ((rh # rest) ! k)))
       \<and> (\<forall>r\<in>set (rh # rest). bd' \<le> hamming_distance e (dhash r))"
      by (simp add: hamming_distance_nonneg)
    then show ?thesis by blast
  next
    case better
    with Cons.prems have "scan e rest (Suc i) (Some i, ?d) = (bi', bd')" by simp
    from Cons.IH [OF this] show ?thesis
    proof (elim disjE exE conjE)
      assume "bi' = Some i" "bd' = ?d" "\<forall>r\<in>set rest. ?d \<le> hamming_distance e (dhash r)"
      with better have "0 < length (rh # rest) \<and> bi' = Some (i + 0) \<and> bd' = hamming_distance e (dhash ((rh # rest) ! 0)) \<and> bd' < bd
       \<and> (\<forall>k<0. bd' < hamming_distance e (dhash ((rh # rest) ! k)))
       \<and> (\<forall>r\<in>set (rh # rest). bd' \<le> hamming_distance e (dhash r))" by simp
      then show ?thesis by blast
    next
      fix j assume j: "j < length rest" "bi' = Some (Suc i + j)" "bd' = hamming_distance e (dhash (rest ! j))"
        "bd' < ?d" "\<forall>k<j. bd' < hamming_distance e (dhash (rest ! k))" "\<forall>r\<in>set rest. bd' \<le> hamming_distance e (dhash r)"
      have "\<forall>k<Suc j. bd' < hamming_distance e (dhash ((rh # rest) ! k))"
        using j(4,5) by (auto simp: less_Suc_eq_0_disj)
      with j better have "Suc j < length (rh # rest) \<and> bi' = Some (i + Suc j) \<and> bd' = hamming_distance e (dhash ((rh # rest) ! Suc j)) \<and> bd' < bd
       \<and> (\<forall>k<Suc j. bd' < hamming_distance e (dhash ((rh # rest) ! k)))
       \<and> (\<forall>r\<in>set (rh # rest). bd' \<le> hamming_distance e (dhash r))" by simp
      then show ?thesis by blast
    qed
  next
    case worse
    with Cons.prems have "scan e rest (Suc i) (bi, bd) = (bi', bd')" by simp
    from Cons.IH [OF this] show ?thesis
    proof (elim disjE exE conjE)
      assume "bi' = bi" "bd' = bd" "\<forall>r\<in>set rest. bd \<le> hamming_distance e (dhash r)"
      with worse show ?thesis by simp
    next
      fix j assume j: "j < length rest" "bi' = Some (Suc i + j)" "bd' = hamming_distance e (dhash (rest ! j))"
        "bd' < bd" "\<forall>k<j. bd' < hamming_distance e (dhash (rest ! k))" "\<forall>r\<in>set rest. bd' \<le> hamming_distance e (dhash r)"
      have "\<forall>k<Suc j. bd' < hamming_distance e (dhash ((rh # rest) ! k))"
        using j(4,5) worse by (auto simp: less_Suc_eq_0_disj)
      with j worse have "Suc j < length (rh # rest) \<and> bi' = Some (i + Suc j) \<and> bd' = hamming_distance e (dhash ((rh # rest) ! Suc j)) \<and> bd' < bd
       \<and> (\<forall>k<Suc j. bd' < hamming_distance e (dhash ((rh # rest) ! k)))
       \<and> (\<forall>r\<in>set (rh # rest). bd' \<le> hamming_distance e (dhash r))" by simp
      then show ?thesis by blast
    qed
  qed
qed


lemma scan_fingerprints:
  assumes q: "is_fingerprint (dhash q)" and rs: "\<forall>r\<in>set refs. is_fingerprint (dhash r)"
    and ne: "refs \<noteq> []"
  shows "\<exists>j<length refs. scan (dhash q) refs 0 (None, 10 ^ 9) = (Some j, dist_to q (refs ! j))
           \<and> (\<forall>k<j. dist_to q (refs ! j) < dist_to q (refs ! k))
           \<and> (\<forall>r\<in>set refs. dist_to q (refs ! j) \<le> dist_to q r)"
proof -
  obtain bi' bd' where s: "scan (dhash q) refs 0 (None, 10 ^ 9) = (bi', bd')"
    by (cases "scan (dhash q) refs 0 (None, 10 ^ 9)") auto
  from ne obtain r0 where r0: "r0 \<in> set refs" by (cases refs) auto
  with q rs have "dist_to q r0 \<le> 64" by (simp add: hamming_distance_le_64)
  then have "\<not> (\<forall>r\<in>set refs. 10 ^ 9 \<le> dist_to q r)" using r0 by force
  with scan_spec [OF s] show ?thesis unfolding s by auto
qed

lemma Min_dist_eq:
  assumes "j < length refs" "\<forall>r\<in>set refs. dist_to q (refs ! j) \<le> dist_to q r"
  shows "Min (dist_to q ` set refs) = dist_to q (refs ! j)"
proof (rule Min_eqI)
  show "finite (dist_to q ` set refs)" by simp
  show "\<And>y. y \<in> dist_to q ` set refs \<Longrightarrow> dist_to q (refs ! j) \<le> y" using assms(2) by auto
  show "dist_to q (refs ! j) \<in> dist_to q ` set refs" using assms(1) by simp
qed

lemma scan_append_nozero:
  "\<forall>r\<in>set pre. hamming_distance e (dhash r) \<noteq> 0 \<Longrightarrow>
   scan e (pre @ rest) i st = scan e rest (i + length pre) (scan e pre i st)"
proof (induction pre arbitrary: i st)
  case Nil
  then show ?case by (cases st) simp
next
  case (Cons r pre)
  then show ?case by (cases st) (simp add: Let_def)
qed

lemma scan_positive:
  "\<forall>r\<in>set pre. hamming_distance e (dhash r) \<noteq> 0 \<Longrightarrow> 0 < bd \<Longrightarrow>
   0 < snd (scan e pre i (bi, bd))"
proof (induction pre arbitrary: i bi bd)
  case Nil
  then show ?case by simp
next
  case (Cons r pre)
  have "0 \<le> hamming_distance e (dhash r)" by (rule hamming_distance_nonneg)
  with Cons.prems have "0 < hamming_distance e (dhash r)" by simp
  with Cons show ?case by (simp add: Let_def)
qed

lemma scan_stops_at_zero:
  assumes "\<forall>r\<in>set pre. hamming_distance e (dhash r) \<noteq> 0" "hamming_distance e (dhash z) = 0"
  shows "scan e (pre @ z # post) 0 (None, 10 ^ 9) = (Some (length pre), 0)"
proof -
  obtain bi bd where s: "scan e pre 0 (None, 10 ^ 9) = (bi, bd)"
    by (cases "scan e pre 0 (None, 10 ^ 9)") auto
  have "0 < snd (scan e pre 0 (None, 10 ^ 9))"
    using assms(1) by (rule scan_positive) simp
  with s have "0 < bd" by simp
  then show ?thesis
    unfolding scan_append_nozero [OF assms(1)] s using assms(2) by simp
qed

text \<open>
  C1: for 64-bit fingerprints and any threshold, the result has status \<open>matched\<close> exactly when
  the reference sequence is not empty and the least Hamming distance from the query to it is at
  most \<open>max_distance\<close>. For an empty reference sequence the distance and the matched path are
  absent and the status is \<open>no_match\<close>. For a reference sequence that is not empty, the least
  distance and the path and fingerprint of an entry at that distance are reported, also when
  the distance exceeds the threshold and the status is \<open>no_match\<close>.
\<close>

theorem find_best_match_status:
  assumes q: "is_fingerprint (dhash q)" and rs: "\<forall>r\<in>set refs. is_fingerprint (dhash r)"
  shows "\<exists>res. find_best_match q refs max_distance = Inr res
     \<and> (status res = ''matched'' \<longleftrightarrow> refs \<noteq> [] \<and> Min (dist_to q ` set refs) \<le> max_distance)
     \<and> (refs = [] \<longrightarrow>
          distance res = None \<and> matched_raw_path res = None \<and> status res = ''no_match'')
     \<and> (refs \<noteq> [] \<longrightarrow>
          distance res = Some (Min (dist_to q ` set refs))
          \<and> (\<exists>r\<in>set refs. dist_to q r = Min (dist_to q ` set refs)
                \<and> matched_raw_path res = Some (path r) \<and> matched_raw_hash res = Some (dhash r)))
     \<and> (refs \<noteq> [] \<and> max_distance < Min (dist_to q ` set refs) \<longrightarrow> status res = ''no_match'')"
proof (cases "refs = []")
  case True
  then show ?thesis by (simp add: find_best_match_def)
next
  case False
  from scan_fingerprints [OF q rs False] obtain j where j: "j < length refs"
    "scan (dhash q) refs 0 (None, 10 ^ 9) = (Some j, dist_to q (refs ! j))"
    "\<forall>r\<in>set refs. dist_to q (refs ! j) \<le> dist_to q r" by blast
  have m: "Min (dist_to q ` set refs) = dist_to q (refs ! j)"
    using j(1,3) by (rule Min_dist_eq)
  have mem: "refs ! j \<in> set refs" using j(1) by simp
  show ?thesis using False mem j(1)
    unfolding find_best_match_def j(2) by (auto simp: getitem_def m)
qed

theorem find_best_match_status_witness:
  "is_fingerprint (dhash \<lparr>path = [''e.jpg''], dhash = 3\<rparr>)
   \<and> is_fingerprint (dhash \<lparr>path = [''a.jpg''], dhash = 0\<rparr>)
   \<and> is_fingerprint (dhash \<lparr>path = [''b.jpg''], dhash = 1\<rparr>)
   \<and> (\<exists>res. find_best_match \<lparr>path = [''e.jpg''], dhash = 3\<rparr>
          [\<lparr>path = [''a.jpg''], dhash = 0\<rparr>, \<lparr>path = [''b.jpg''], dhash = 1\<rparr>] 1 = Inr res
        \<and> status res = ''matched'' \<and> distance res = Some 1)
   \<and> (\<exists>res. find_best_match \<lparr>path = [''e.jpg''], dhash = 3\<rparr>
          [\<lparr>path = [''a.jpg''], dhash = 0\<rparr>, \<lparr>path = [''b.jpg''], dhash = 1\<rparr>] 0 = Inr res
        \<and> status res = ''no_match'' \<and> distance res = Some 1)
   \<and> (\<exists>res. find_best_match \<lparr>path = [''e.jpg''], dhash = 3\<rparr> [] 64 = Inr res
        \<and> status res = ''no_match'' \<and> distance res = None \<and> matched_raw_path res = None)"
proof -
  let ?q = "\<lparr>path = [''e.jpg''], dhash = 3\<rparr>"
  let ?refs = "[\<lparr>path = [''a.jpg''], dhash = 0\<rparr>, \<lparr>path = [''b.jpg''], dhash = 1\<rparr>]"
  have h1: "is_fingerprint (dhash ?q)" by (simp add: is_fingerprint_def)
  have h2: "\<forall>r\<in>set ?refs. is_fingerprint (dhash r)" by (simp add: is_fingerprint_def)
  have h3: "\<forall>r\<in>set ([] :: ImageHash list). is_fingerprint (dhash r)" by simp
  have m: "Min (dist_to ?q ` set ?refs) = 1"
    by (simp add: hamming_distance_def bit_count_def popcount.simps)
  from find_best_match_status [OF h1 h2, of 1]
  have a: "\<exists>res. find_best_match ?q ?refs 1 = Inr res
        \<and> status res = ''matched'' \<and> distance res = Some 1"
    unfolding m by auto
  from find_best_match_status [OF h1 h2, of 0]
  have b: "\<exists>res. find_best_match ?q ?refs 0 = Inr res
        \<and> status res = ''no_match'' \<and> distance res = Some 1"
    unfolding m by auto
  from find_best_match_status [OF h1 h3, of 64]
  have c: "\<exists>res. find_best_match ?q [] 64 = Inr res
        \<and> status res = ''no_match'' \<and> distance res = None \<and> matched_raw_path res = None"
    by auto
  from h1 h2 a b c show ?thesis by simp
qed

text \<open>
  C2: for a reference sequence that is not empty, the reported entry is the one at the
  earliest index whose distance to the query is the least one: no entry before it has that
  distance. When an entry at distance 0 comes after entries that are all at a distance other
  than 0, it is the reported entry, and the result is the one of the sequence cut off after
  that entry: nothing behind it is looked at.
\<close>

theorem find_best_match_first_minimum:
  assumes q: "is_fingerprint (dhash q)" and rs: "\<forall>r\<in>set refs. is_fingerprint (dhash r)"
    and ne: "refs \<noteq> []"
  shows "\<exists>res i. find_best_match q refs max_distance = Inr res \<and> i < length refs
     \<and> dist_to q (refs ! i) = Min (dist_to q ` set refs)
     \<and> (\<forall>k<i. dist_to q (refs ! k) \<noteq> Min (dist_to q ` set refs))
     \<and> matched_raw_path res = Some (path (refs ! i))
     \<and> matched_raw_hash res = Some (dhash (refs ! i))
     \<and> distance res = Some (dist_to q (refs ! i))
     \<and> (\<forall>pre z post. refs = pre @ z # post \<and> dist_to q z = 0 \<and> (\<forall>r\<in>set pre. dist_to q r \<noteq> 0)
           \<longrightarrow> i = length pre \<and> find_best_match q (pre @ [z]) max_distance = Inr res)"
proof -
  from scan_fingerprints [OF q rs ne] obtain j where j: "j < length refs"
    "scan (dhash q) refs 0 (None, 10 ^ 9) = (Some j, dist_to q (refs ! j))"
    "\<forall>k<j. dist_to q (refs ! j) < dist_to q (refs ! k)"
    "\<forall>r\<in>set refs. dist_to q (refs ! j) \<le> dist_to q r" by blast
  have m: "Min (dist_to q ` set refs) = dist_to q (refs ! j)"
    using j(1,4) by (rule Min_dist_eq)
  define res where "res = \<lparr>edited_path = path q, edited_hash = dhash q,
      matched_raw_path = Some (path (refs ! j)), matched_raw_hash = Some (dhash (refs ! j)),
      distance = Some (dist_to q (refs ! j)),
      status = (if dist_to q (refs ! j) \<le> max_distance then ''matched'' else ''no_match'')\<rparr>"
  have r: "find_best_match q refs max_distance = Inr res"
    using j(1) unfolding find_best_match_def j(2) by (simp add: getitem_def res_def)
  have early: "j = length pre \<and> find_best_match q (pre @ [z]) max_distance = Inr res"
    if "refs = pre @ z # post" "dist_to q z = 0" "\<forall>r\<in>set pre. dist_to q r \<noteq> 0" for pre z post
  proof -
    have "scan (dhash q) refs 0 (None, 10 ^ 9) = (Some (length pre), 0)"
      unfolding that(1) using that(3,2) by (rule scan_stops_at_zero)
    then have "(Some j, dist_to q (refs ! j)) = (Some (length pre), 0)"
      unfolding j(2) .
    then have jl: "j = length pre" and d0: "dist_to q (refs ! j) = 0" by blast+
    have z1: "scan (dhash q) (pre @ [z]) 0 (None, 10 ^ 9) = (Some (length pre), 0)"
      using that(3,2) by (rule scan_stops_at_zero)
    have "find_best_match q (pre @ [z]) max_distance = Inr res"
      unfolding find_best_match_def z1 using d0 by (simp add: getitem_def res_def jl that(1))
    with jl show ?thesis by simp
  qed
  show ?thesis
    apply (rule exI [of _ res], rule exI [of _ j])
    using r j(1) j(3) m early by (auto simp: res_def)
qed

theorem find_best_match_first_minimum_witness:
  "is_fingerprint (dhash \<lparr>path = [''e.jpg''], dhash = 3\<rparr>)
   \<and> is_fingerprint (dhash \<lparr>path = [''a.jpg''], dhash = 1\<rparr>)
   \<and> is_fingerprint (dhash \<lparr>path = [''b.jpg''], dhash = 3\<rparr>)
   \<and> is_fingerprint (dhash \<lparr>path = [''c.jpg''], dhash = 3\<rparr>)
   \<and> [\<lparr>path = [''a.jpg''], dhash = 1\<rparr>, \<lparr>path = [''b.jpg''], dhash = 3\<rparr>,
       \<lparr>path = [''c.jpg''], dhash = 3\<rparr>] \<noteq> []
   \<and> (\<exists>res. find_best_match \<lparr>path = [''e.jpg''], dhash = 3\<rparr>
          [\<lparr>path = [''a.jpg''], dhash = 1\<rparr>, \<lparr>path = [''b.jpg''], dhash = 3\<rparr>,
           \<lparr>path = [''c.jpg''], dhash = 3\<rparr>] 2 = Inr res
        \<and> matched_raw_path res = Some [''b.jpg''] \<and> distance res = Some 0
        \<and> find_best_match \<lparr>path = [''e.jpg''], dhash = 3\<rparr>
            [\<lparr>path = [''a.jpg''], dhash = 1\<rparr>, \<lparr>path = [''b.jpg''], dhash = 3\<rparr>] 2 = Inr res)"
proof -
  let ?q = "\<lparr>path = [''e.jpg''], dhash = 3\<rparr>"
  let ?a = "\<lparr>path = [''a.jpg''], dhash = 1\<rparr>"
  let ?b = "\<lparr>path = [''b.jpg''], dhash = 3\<rparr>"
  let ?c = "\<lparr>path = [''c.jpg''], dhash = 3\<rparr>"
  have h1: "is_fingerprint (dhash ?q)" by (simp add: is_fingerprint_def)
  have h2: "\<forall>r\<in>set [?a, ?b, ?c]. is_fingerprint (dhash r)" by (simp add: is_fingerprint_def)
  have h3: "[?a, ?b, ?c] \<noteq> []" by simp
  have d: "dist_to ?q ?b = 0" "\<forall>r\<in>set [?a]. dist_to ?q r \<noteq> 0"
    by (simp_all add: hamming_distance_def bit_count_def popcount.simps)
  from find_best_match_first_minimum [OF h1 h2 h3, of 2] obtain res i where
    r: "find_best_match ?q [?a, ?b, ?c] 2 = Inr res"
      "matched_raw_path res = Some (path ([?a, ?b, ?c] ! i))"
      "distance res = Some (dist_to ?q ([?a, ?b, ?c] ! i))"
    and e: "\<forall>pre z post. [?a, ?b, ?c] = pre @ z # post \<and> dist_to ?q z = 0
              \<and> (\<forall>r\<in>set pre. dist_to ?q r \<noteq> 0)
            \<longrightarrow> i = length pre \<and> find_best_match ?q (pre @ [z]) 2 = Inr res"
    by blast
  have "[?a, ?b, ?c] = [?a] @ ?b # [?c]" by simp
  with e d have i: "i = length [?a] \<and> find_best_match ?q ([?a] @ [?b]) 2 = Inr res" by blast
  then have "i = 1" "find_best_match ?q [?a, ?b] 2 = Inr res" by simp_all
  with r d(1) have "find_best_match ?q [?a, ?b, ?c] 2 = Inr res
        \<and> matched_raw_path res = Some [''b.jpg''] \<and> distance res = Some 0
        \<and> find_best_match ?q [?a, ?b] 2 = Inr res" by simp
  then show ?thesis using h1 h2 h3 by simp
qed

text \<open>
  C10: for every query and reference sequence, \<^verbatim>\<open>find_best_match\<close> returns a result whose
  \<open>edited_path\<close> and \<open>edited_hash\<close> are the path and hash of the query, and whose status is
  \<open>matched\<close> or \<open>no_match\<close>, never \<open>unreadable\<close>.
\<close>

theorem find_best_match_echoes_query:
  "\<exists>res. find_best_match q refs max_distance = Inr res
     \<and> edited_path res = path q \<and> edited_hash res = dhash q
     \<and> (status res = ''matched'' \<or> status res = ''no_match'')
     \<and> status res \<noteq> ''unreadable''"
proof -
  obtain bi bd where s: "scan (dhash q) refs 0 (None, 10 ^ 9) = (bi, bd)"
    by (cases "scan (dhash q) refs 0 (None, 10 ^ 9)") auto
  show ?thesis
  proof (cases bi)
    case None
    show ?thesis unfolding find_best_match_def s None by simp
  next
    case (Some j)
    with scan_spec [OF s] have "j < length refs" by auto
    then show ?thesis unfolding find_best_match_def s Some by (simp add: getitem_def)
  qed
qed



theorem find_best_match_echoes_query_witness:
  "\<exists>res. find_best_match \<lparr>path = [''e.jpg''], dhash = 3\<rparr> [\<lparr>path = [''a.jpg''], dhash = 1\<rparr>] 0 = Inr res
     \<and> edited_path res = [''e.jpg''] \<and> edited_hash res = 3 \<and> status res = ''no_match''"
proof -
  from find_best_match_echoes_query
    [of "\<lparr>path = [''e.jpg''], dhash = 3\<rparr>" "[\<lparr>path = [''a.jpg''], dhash = 1\<rparr>]" 0]
  obtain res where r: "find_best_match \<lparr>path = [''e.jpg''], dhash = 3\<rparr> [\<lparr>path = [''a.jpg''], dhash = 1\<rparr>] 0 = Inr res"
    "edited_path res = [''e.jpg'']" "edited_hash res = 3"
    "status res = ''matched'' \<or> status res = ''no_match''" by auto
  have "find_best_match \<lparr>path = [''e.jpg''], dhash = 3\<rparr> [\<lparr>path = [''a.jpg''], dhash = 1\<rparr>] 0
      = Inr \<lparr>edited_path = [''e.jpg''], edited_hash = 3, matched_raw_path = Some [''a.jpg''],
             matched_raw_hash = Some 1, distance = Some 1, status = ''no_match''\<rparr>"
    by (simp add: find_best_match_def getitem_def hamming_distance_def bit_count_def popcount.simps)
  with r have "status res = ''no_match''" by auto
  with r show ?thesis by blast
qed


section \<open>Properties of the fingerprint\<close>

lemma dhash_inv_step:
  assumes k: "k < 64" and inv: "dhash_inv px k (h, b)"
  shows "dhash_inv px (Suc k) ((if cmp_at px k then h OR b else h), drop_bit 1 b)"
proof -
  from inv k have h0: "0 \<le> h" and b: "b = 2 ^ (63 - k)"
    and bits: "\<And>n. bit h n \<longleftrightarrow> n < 64 \<and> 63 - n < k \<and> cmp_at px (63 - n)"
    by (simp_all add: dhash_inv_def)
  have b': "drop_bit 1 b = (if Suc k < 64 then 2 ^ (63 - Suc k) else 0)"
  proof (cases "k < 63")
    case True
    then have "Suc 0 \<le> 63 - k" by arith
    then show ?thesis unfolding b using True by (simp add: drop_bit_exp_eq)
  next
    case False
    with k have "k = 63" by arith
    then show ?thesis unfolding b by simp
  qed
  have idx: "n < 64 \<and> 63 - n < Suc k \<longleftrightarrow> (n < 64 \<and> 63 - n < k) \<or> n = 63 - k" for n
    using k by auto
  show ?thesis
  proof (cases "cmp_at px k")
    case True
    have "bit (h OR b) n \<longleftrightarrow> n < 64 \<and> 63 - n < Suc k \<and> cmp_at px (63 - n)" for n
    proof -
      have "bit (h OR b) n \<longleftrightarrow> bit h n \<or> n = 63 - k"
        unfolding b by (simp add: bit_or_iff bit_exp_iff)
      also have "\<dots> \<longleftrightarrow> (n < 64 \<and> 63 - n < k \<and> cmp_at px (63 - n)) \<or> n = 63 - k"
        by (simp add: bits)
      also have "\<dots> \<longleftrightarrow> n < 64 \<and> 63 - n < Suc k \<and> cmp_at px (63 - n)"
        using k True idx [of n] by auto
      finally show ?thesis .
    qed
    moreover have "0 \<le> h OR b" using h0 b by simp
    ultimately show ?thesis using True b' by (simp add: dhash_inv_def)
  next
    case False
    have "bit h n \<longleftrightarrow> n < 64 \<and> 63 - n < Suc k \<and> cmp_at px (63 - n)" for n
      using bits [of n] k False idx [of n] by auto
    then show ?thesis using False b' h0 by (simp add: dhash_inv_def)
  qed
qed

lemma dhash_cols_inv:
  assumes len: "length px = 72" and row: "row < 8"
  shows "c \<le> 8 \<Longrightarrow> dhash_inv px (8 * row + c) (h, b) \<Longrightarrow>
    \<exists>hb. dhash_cols px (row * 9) [c..<8] (h, b) = Some hb \<and> dhash_inv px (8 * row + 8) hb"
proof (induction "8 - c" arbitrary: c h b)
  case 0
  then have "c = 8" by simp
  with 0 show ?case by simp
next
  case (Suc m)
  then have c: "c < 8" by simp
  then have upt: "[c..<8] = c # [Suc c..<8]" by (simp add: upt_conv_Cons)
  from c have dm: "(8 * row + c) div 8 = row" "(8 * row + c) mod 8 = c" by simp_all
  from c row len have i: "row * 9 + c + 1 < length px" by simp
  have step: "dhash_cols px (row * 9) (c # [Suc c..<8]) (h, b)
      = dhash_cols px (row * 9) [Suc c..<8]
          ((if cmp_at px (8 * row + c) then h OR b else h), drop_bit 1 b)"
    using i unfolding cmp_at_def dm by (simp add: px_at_def mult.commute)
  from c row have k: "8 * row + c < 64" by simp
  from dhash_inv_step [OF k Suc.prems(2)]
  have "dhash_inv px (8 * row + Suc c)
          ((if cmp_at px (8 * row + c) then h OR b else h), drop_bit 1 b)" by simp
  moreover have "m = 8 - Suc c" using Suc.hyps(2) by simp
  moreover have "Suc c \<le> 8" using c by simp
  ultimately obtain hb where
    "dhash_cols px (row * 9) [Suc c..<8]
       ((if cmp_at px (8 * row + c) then h OR b else h), drop_bit 1 b) = Some hb"
    "dhash_inv px (8 * row + 8) hb"
    using Suc.hyps(1) by blast
  then show ?case unfolding upt step by blast
qed

lemma dhash_rows_inv:
  assumes len: "length px = 72"
  shows "r \<le> 8 \<Longrightarrow> dhash_inv px (8 * r) (h, b) \<Longrightarrow>
    \<exists>hb. dhash_rows px [r..<8] (h, b) = Some hb \<and> dhash_inv px 64 hb"
proof (induction "8 - r" arbitrary: r h b)
  case 0
  then have "r = 8" by simp
  with 0 show ?case by simp
next
  case (Suc m)
  then have r: "r < 8" by simp
  then have upt: "[r..<8] = r # [Suc r..<8]" by (simp add: upt_conv_Cons)
  from Suc.prems(2) have "dhash_inv px (8 * r + 0) (h, b)" by simp
  from dhash_cols_inv [OF len r _ this] obtain hb where
    hb: "dhash_cols px (r * 9) [0..<8] (h, b) = Some hb" "dhash_inv px (8 * r + 8) hb" by auto
  obtain h' b' where p: "hb = (h', b')" by (cases hb)
  have "m = 8 - Suc r" using Suc.hyps(2) by simp
  moreover have "Suc r \<le> 8" using r by simp
  moreover have "8 * Suc r = 8 * r + 8" by simp
  then have "dhash_inv px (8 * Suc r) (h', b')" using hb(2) p by metis
  ultimately obtain hb' where "dhash_rows px [Suc r..<8] (h', b') = Some hb'" "dhash_inv px 64 hb'"
    using Suc.hyps(1) by blast
  then show ?case unfolding upt by (simp add: hb(1) p)
qed

lemma dhash_inv_init: "dhash_inv px 0 (0, push_bit 63 1)"
  by (simp add: dhash_inv_def)

lemma dhash_bits_inv:
  assumes len: "length px = 72"
  shows "\<exists>h b. dhash_bits px = Some h \<and> dhash_inv px 64 (h, b)"
proof -
  have "dhash_inv px (8 * 0) (0, push_bit 63 1)" using dhash_inv_init by simp
  from dhash_rows_inv [OF len _ this] obtain hb where
    "dhash_rows px [0..<8] (0, push_bit 63 1) = Some hb" "dhash_inv px 64 hb" by auto
  then show ?thesis by (cases hb) (auto simp: dhash_bits_def)
qed


lemma dhash_cols_range:
  "dhash_cols px base cols (h, b) = Some (h', b') \<Longrightarrow>
   0 \<le> h \<Longrightarrow> h < 2 ^ 64 \<Longrightarrow> 0 \<le> b \<Longrightarrow> b < 2 ^ 64 \<Longrightarrow>
   0 \<le> h' \<and> h' < 2 ^ 64 \<and> 0 \<le> b' \<and> b' < 2 ^ 64"
proof (induction cols arbitrary: h b)
  case Nil
  then show ?case by simp
next
  case (Cons col cols)
  obtain left where l: "px_at px (base + col) = Some left"
    using Cons.prems(1) by (cases "px_at px (base + col)") simp_all
  obtain right where r: "px_at px (base + col + 1) = Some right"
    using Cons.prems(1) l by (cases "px_at px (base + col + 1)") simp_all
  have rec: "dhash_cols px base cols ((if right > left then h OR b else h), drop_bit 1 b) = Some (h', b')"
    using Cons.prems(1) l r by simp
  have "0 \<le> h OR b" using Cons.prems by simp
  moreover have "h OR b < 2 ^ 64" using Cons.prems by (intro OR_upper) simp_all
  moreover have "0 \<le> drop_bit 1 b" using Cons.prems by simp
  moreover have "drop_bit 1 b < 2 ^ 64" using Cons.prems by (simp add: drop_bit_eq_div)
  ultimately show ?case using Cons.IH [OF rec] Cons.prems by (auto split: if_splits)
qed

lemma dhash_rows_range:
  "dhash_rows px rows (h, b) = Some (h', b') \<Longrightarrow>
   0 \<le> h \<Longrightarrow> h < 2 ^ 64 \<Longrightarrow> 0 \<le> b \<Longrightarrow> b < 2 ^ 64 \<Longrightarrow>
   0 \<le> h' \<and> h' < 2 ^ 64 \<and> 0 \<le> b' \<and> b' < 2 ^ 64"
proof (induction rows arbitrary: h b)
  case Nil
  then show ?case by simp
next
  case (Cons row rows)
  from Cons.prems(1) obtain h1 b1 where
    c: "dhash_cols px (row * 9) [0..<8] (h, b) = Some (h1, b1)"
    and r: "dhash_rows px rows (h1, b1) = Some (h', b')"
    by (auto simp: Let_def split: option.splits)
  from dhash_cols_range [OF c] Cons.prems
  have "0 \<le> h1 \<and> h1 < 2 ^ 64 \<and> 0 \<le> b1 \<and> b1 < 2 ^ 64" by simp
  with Cons.IH [OF r] show ?case by simp
qed

lemma dhash_bits_fingerprint: "dhash_bits px = Some h \<Longrightarrow> is_fingerprint h"
proof -
  assume "dhash_bits px = Some h"
  then obtain b where "dhash_rows px [0..<8] (0, push_bit 63 1) = Some (h, b)"
    by (auto simp: dhash_bits_def)
  from dhash_rows_range [OF this] show ?thesis by (simp add: is_fingerprint_def)
qed

text \<open>
  C3: for a grid of 9 by 8 luminance values, given row by row as the 72 values that Pillow
  returns, the fingerprint is a 64-bit value whose bit for row \<open>r\<close> and column \<open>c\<close>, counted
  row-major from the most significant bit (bit \<open>63 - (8 r + c)\<close>), is set exactly when the pixel
  at \<open>(r, c + 1)\<close> is strictly greater than the pixel at \<open>(r, c)\<close>. The value depends on the
  pixel values only: every file, in every environment, that decodes to this grid gets this
  fingerprint.
\<close>

theorem dhash_bits_grid:
  assumes len: "length px = 72"
  shows "\<exists>h. dhash_bits px = Some h \<and> is_fingerprint h
     \<and> (\<forall>r<8. \<forall>c<8. bit h (63 - (8 * r + c)) \<longleftrightarrow> px ! (9 * r + c) < px ! (9 * r + c + 1))
     \<and> (\<forall>e p. load_pixels e p = Some px \<longrightarrow> dhash64 e p = Some h)"
proof -
  from dhash_bits_inv [OF len] obtain h b where
    h: "dhash_bits px = Some h" and inv: "dhash_inv px 64 (h, b)" by blast
  have "bit h (63 - (8 * r + c)) \<longleftrightarrow> px ! (9 * r + c) < px ! (9 * r + c + 1)"
    if "r < 8" "c < 8" for r c
  proof -
    from that have k: "8 * r + c < 64" by simp
    from that have dm: "(8 * r + c) div 8 = r" "(8 * r + c) mod 8 = c" by simp_all
    have "63 - (8 * r + c) < 64" "63 - (63 - (8 * r + c)) < 64" by arith+
    with inv have "bit h (63 - (8 * r + c)) \<longleftrightarrow> cmp_at px (63 - (63 - (8 * r + c)))"
      by (simp add: dhash_inv_def)
    also have "63 - (63 - (8 * r + c)) = 8 * r + c" using k by simp
    finally show ?thesis unfolding cmp_at_def dm .
  qed
  moreover have "dhash64 e p = Some h" if "load_pixels e p = Some px" for e p
    using that h by (simp add: dhash64_def)
  ultimately show ?thesis using h dhash_bits_fingerprint [OF h] by blast
qed

lemma hash_todo_eq: "hash_todo e todo out = out @ List.map_filter (hash_path_worker e) todo"
  by (induction todo arbitrary: out) (simp_all split: option.splits)

lemma collect_eq: "collect rs out = out @ List.map_filter (\<lambda>r. r) rs"
  by (induction rs arbitrary: out) (simp_all split: option.splits)

lemma map_filter_map: "List.map_filter (\<lambda>r. r) (map f xs) = List.map_filter f xs"
  by (induction xs) (simp_all split: option.splits)

lemma hash_edited_loop_eq:
  "hash_edited_loop e ps out
   = out @ List.map_filter (\<lambda>p. map_option (\<lambda>h. \<lparr>path = resolve e p, dhash = h\<rparr>) (dhash64 e p)) ps"
  by (induction ps arbitrary: out) (simp_all split: option.splits)

text \<open>
  C8: \<^verbatim>\<open>dhash64\<close> returns None or a 64-bit fingerprint, and None when the file cannot be
  decoded; no error value escapes. The edited phase returns, in the order of enumeration,
  exactly the files that have a fingerprint, and both hashing loops of the raw phase (the
  in-process one, and the one over the results of the pool) append exactly the files of
  \<open>todo\<close> that have a fingerprint: a file without one is left out and the files after it
  are still processed.
\<close>

theorem decode_failure_excluded:
  "(dhash64 e p = None \<or> (\<exists>h. dhash64 e p = Some h \<and> is_fingerprint h))
   \<and> (load_pixels e p = None \<longrightarrow> dhash64 e p = None)
   \<and> hash_edited_images e d
       = List.map_filter (\<lambda>p. map_option (\<lambda>h. \<lparr>path = resolve e p, dhash = h\<rparr>) (dhash64 e p))
           (iter_images e (resolve e d))
   \<and> hash_todo e todo out = out @ List.map_filter (hash_path_worker e) todo
   \<and> collect (map (hash_path_worker e) todo) out = out @ List.map_filter (hash_path_worker e) todo
   \<and> (hash_path_worker e p = None \<longleftrightarrow> dhash64 e p = None)"
proof -
  have "dhash64 e p = None \<or> (\<exists>h. dhash64 e p = Some h \<and> is_fingerprint h)"
    by (auto simp: dhash64_def dhash_bits_fingerprint split: option.splits)
  moreover have "load_pixels e p = None \<longrightarrow> dhash64 e p = None"
    by (simp add: dhash64_def)
  moreover have "hash_edited_images e d
       = List.map_filter (\<lambda>p. map_option (\<lambda>h. \<lparr>path = resolve e p, dhash = h\<rparr>) (dhash64 e p))
           (iter_images e (resolve e d))"
    by (simp add: hash_edited_images_def hash_edited_loop_eq)
  moreover have "collect (map (hash_path_worker e) todo) out
       = out @ List.map_filter (hash_path_worker e) todo"
    by (simp add: collect_eq map_filter_map)
  moreover have "hash_path_worker e p = None \<longleftrightarrow> dhash64 e p = None"
    by (simp add: hash_path_worker_def split: option.splits)
  ultimately show ?thesis using hash_todo_eq by blast
qed


section \<open>Properties of the cache file\<close>


























section \<open>Properties of the raw phase\<close>
















section \<open>The example world\<close>


lemma ex_resolve [simp]: "resolve (example_env ps) p = p"
  by (simp add: example_env_def)

lemma ex_iter [simp]: "iter_images (example_env ps) d = ps"
  by (simp add: example_env_def)



lemma ex_pixels:
  "load_pixels (example_env ps) [''raw'', ''a.jpg''] = Some (replicate 72 0)"
  "load_pixels (example_env ps) [''raw'', ''b.jpg''] = None"
  "load_pixels (example_env ps) [''raw'', ''c.jpg''] = Some (replicate 70 1 @ [0, 1])"
  by (simp_all add: example_env_def)

lemma ex_bits:
  "dhash_bits (replicate 72 0) = Some 0"
  "dhash_bits (replicate 70 1 @ [0, 1]) = Some 1"
  by code_simp+

lemma ex_dhash64:
  "dhash64 (example_env ps) [''raw'', ''a.jpg''] = Some 0"
  "dhash64 (example_env ps) [''raw'', ''b.jpg''] = None"
  "dhash64 (example_env ps) [''raw'', ''c.jpg''] = Some 1"
  by (simp_all only: dhash64_def ex_pixels ex_bits option.case)

lemma ex_worker:
  "hash_path_worker (example_env ps) [''raw'', ''a.jpg''] = Some \<lparr>path = [''raw'', ''a.jpg''], dhash = 0\<rparr>"
  "hash_path_worker (example_env ps) [''raw'', ''b.jpg''] = None"
  "hash_path_worker (example_env ps) [''raw'', ''c.jpg''] = Some \<lparr>path = [''raw'', ''c.jpg''], dhash = 1\<rparr>"
  by (simp_all only: hash_path_worker_def ex_dhash64 option.case)



section \<open>Instances in the example world\<close>


theorem decode_failure_excluded_witness:
  "load_pixels (example_env [[''raw'', ''a.jpg''], [''raw'', ''b.jpg''], [''raw'', ''c.jpg'']])
     [''raw'', ''b.jpg''] = None
   \<and> dhash64 (example_env [[''raw'', ''a.jpg''], [''raw'', ''b.jpg''], [''raw'', ''c.jpg'']])
       [''raw'', ''b.jpg''] = None
   \<and> hash_edited_images (example_env [[''raw'', ''a.jpg''], [''raw'', ''b.jpg''], [''raw'', ''c.jpg'']])
       [''raw'']
     = [\<lparr>path = [''raw'', ''a.jpg''], dhash = 0\<rparr>, \<lparr>path = [''raw'', ''c.jpg''], dhash = 1\<rparr>]
   \<and> hash_todo (example_env [[''raw'', ''a.jpg''], [''raw'', ''b.jpg''], [''raw'', ''c.jpg'']])
       [[''raw'', ''a.jpg''], [''raw'', ''b.jpg''], [''raw'', ''c.jpg'']] []
     = [\<lparr>path = [''raw'', ''a.jpg''], dhash = 0\<rparr>, \<lparr>path = [''raw'', ''c.jpg''], dhash = 1\<rparr>]"
proof -
  let ?a = "[''raw'', ''a.jpg'']" and ?b = "[''raw'', ''b.jpg'']" and ?c = "[''raw'', ''c.jpg'']"
  let ?E = "example_env [?a, ?b, ?c]"
  note t = decode_failure_excluded [of ?E ?b "[''raw'']" "[?a, ?b, ?c]" "[]"]
  from t ex_pixels(2) [of "[?a, ?b, ?c]"] have n: "dhash64 ?E ?b = None" by blast
  from t have "hash_edited_images ?E [''raw'']
      = List.map_filter (\<lambda>p. map_option (\<lambda>h. \<lparr>path = resolve ?E p, dhash = h\<rparr>) (dhash64 ?E p))
          (iter_images ?E (resolve ?E [''raw'']))" by blast
  then have ed: "hash_edited_images ?E [''raw'']
      = [\<lparr>path = ?a, dhash = 0\<rparr>, \<lparr>path = ?c, dhash = 1\<rparr>]"
    by (simp add: map_filter_simps ex_dhash64)
  from t have "hash_todo ?E [?a, ?b, ?c] [] = [] @ List.map_filter (hash_path_worker ?E) [?a, ?b, ?c]"
    by blast
  then have td: "hash_todo ?E [?a, ?b, ?c] [] = [\<lparr>path = ?a, dhash = 0\<rparr>, \<lparr>path = ?c, dhash = 1\<rparr>]"
    by (simp add: map_filter_simps ex_worker)
  from ex_pixels(2) [of "[?a, ?b, ?c]"] n ed td show ?thesis by blast
qed

theorem dhash_bits_grid_witness:
  "length (replicate 70 1 @ [0, 1 :: int]) = 72
   \<and> (\<exists>h. dhash_bits (replicate 70 1 @ [0, 1]) = Some h \<and> is_fingerprint h
          \<and> bit h 0 \<and> \<not> bit h 1
          \<and> dhash64 (example_env []) [''raw'', ''c.jpg''] = Some h)"
proof -
  let ?px = "replicate 70 1 @ [0, 1 :: int]"
  have len: "length ?px = 72" by simp
  from dhash_bits_grid [OF len] obtain h where h: "dhash_bits ?px = Some h" "is_fingerprint h"
    and bits: "\<forall>r<8. \<forall>c<8. bit h (63 - (8 * r + c)) \<longleftrightarrow> ?px ! (9 * r + c) < ?px ! (9 * r + c + 1)"
    and det: "\<forall>e p. load_pixels e p = Some ?px \<longrightarrow> dhash64 e p = Some h"
    by blast
  from bits [rule_format, of 7 7] have b0: "bit h 0" by (simp add: nth_append)
  from bits [rule_format, of 7 6] have b1: "\<not> bit h 1" by (simp add: nth_append)
  from det ex_pixels(3) [of "[]"] have d: "dhash64 (example_env []) [''raw'', ''c.jpg''] = Some h"
    by blast
  from h b0 b1 d len show ?thesis by blast
qed





end
